theory Spec2Isabelle
  imports Main "HOL-Library.Sublist"
begin

section \<open>Text, lines and character classes\<close>

text \<open>
  The script \<^verbatim>\<open>scripts/rename_cursor_functions.py\<close> works on the text of one Go file.
  A text is a \<^typ>\<open>string\<close>; the model covers ASCII text, which is what the Go sources
  of the parser are. Python's \<^verbatim>\<open>\w\<close>, \<^verbatim>\<open>\s\<close> and \<^verbatim>\<open>str.strip\<close> are
  modelled by their ASCII members: a character outside ASCII is neither a word
  character nor white space here.
\<close>

definition is_word :: "char \<Rightarrow> bool" where
  \<comment> \<open>\<^verbatim>\<open>\w\<close>: letters, digits and the underscore\<close>
  "is_word c \<longleftrightarrow>
     c \<in> set ''abcdefghijklmnopqrstuvwxyzABCDEFGHIJKLMNOPQRSTUVWXYZ0123456789_''"

definition is_space :: "char \<Rightarrow> bool" where
  \<comment> \<open>\<^verbatim>\<open>\s\<close> and the characters \<^verbatim>\<open>strip()\<close> removes:
      TAB, LF, VT, FF, CR, FS, GS, RS, US and the blank\<close>
  "is_space c \<longleftrightarrow>
     c \<in> set [CHR 0x09, CHR 0x0A, CHR 0x0B, CHR 0x0C, CHR 0x0D,
               CHR 0x1C, CHR 0x1D, CHR 0x1E, CHR 0x1F, CHR 0x20]"

definition strip :: "string \<Rightarrow> string" where
  \<comment> \<open>\<^verbatim>\<open>s.strip()\<close>\<close>
  "strip s = rev (dropWhile is_space (rev (dropWhile is_space s)))"

fun split_nl :: "string \<Rightarrow> string list" where
  \<comment> \<open>\<^verbatim>\<open>content.split('\n')\<close>: never empty, one more line than there are line feeds\<close>
  "split_nl [] = [[]]"
| "split_nl (c # cs) =
     (let r = split_nl cs
      in if c = CHR 0x0A then [] # r else (c # hd r) # tl r)"

fun join_nl :: "string list \<Rightarrow> string" where
  \<comment> \<open>\<^verbatim>\<open>'\n'.join(lines)\<close>\<close>
  "join_nl [] = []"
| "join_nl [l] = l"
| "join_nl (l # m # ls) = l @ CHR 0x0A # join_nl (m # ls)"

datatype error = IndexError

definition get_line :: "string list \<Rightarrow> nat \<Rightarrow> error + string" where
  \<comment> \<open>\<^verbatim>\<open>lines[i]\<close> for an index that is not negative: out of range raises\<close>
  "get_line ls i = (if i < length ls then Inr (ls ! i) else Inl IndexError)"

section \<open>The two patterns of the scanner\<close>

text \<open>
  Line 24 matches, from the start of the line,
  \<^verbatim>\<open>^func \(p \*Parser\) (parse\w+)\((.*?)\)(.*?)\{\<close>.
  The greedy \<^verbatim>\<open>\w+\<close> must be followed by \<^verbatim>\<open>(\<close>, which is no word character, so
  the identifier is \<^verbatim>\<open>parse\<close> and the whole, non-empty run of word characters after
  it. The lazy \<^verbatim>\<open>(.*?)\)\<close> ends at the first \<^verbatim>\<open>)\<close>, the lazy \<^verbatim>\<open>(.*?)\{\<close> at the
  first \<^verbatim>\<open>{\<close> after it, and \<^verbatim>\<open>.\<close> matches every character but the line feed. The
  result holds the three groups.
\<close>

definition func_prefix :: string where
  \<comment> \<open>the keyword and the receiver, shared by the scanner and the rewriter\<close>
  "func_prefix = ''func (p *Parser) ''"

definition func_match :: "string \<Rightarrow> (string \<times> string \<times> string) option" where
  "func_match line =
     (if \<not> prefix (func_prefix @ ''parse'') line then None
      else
        let r = drop (length (func_prefix @ ''parse'')) line;
            w = takeWhile is_word r;
            r1 = dropWhile is_word r
        in if w = [] then None
           else (case r1 of
                   [] \<Rightarrow> None
                 | c # r2 \<Rightarrow>
                     if c \<noteq> CHR ''('' then None
                     else
                       let ps = takeWhile (\<lambda>x. x \<noteq> CHR '')'') r2;
                           r3 = dropWhile (\<lambda>x. x \<noteq> CHR '')'') r2
                       in if r3 = [] \<or> CHR 0x0A \<in> set ps then None
                          else
                            let rt = takeWhile (\<lambda>x. x \<noteq> CHR ''{'') (tl r3);
                                r4 = dropWhile (\<lambda>x. x \<noteq> CHR ''{'') (tl r3)
                            in if r4 = [] \<or> CHR 0x0A \<in> set rt then None
                               else Some (''parse'' @ w, ps, rt)))"

text \<open>
  Line 36 matches, from the start of the line, \<^verbatim>\<open>\s*return p\.(\w+Cursor)\(\<close>.
  \<^verbatim>\<open>\s*\<close> takes all the leading white space (the next character must be \<^verbatim>\<open>r\<close>);
  the group is the whole run of word characters after \<^verbatim>\<open>return p.\<close>, which must end
  in \<^verbatim>\<open>Cursor\<close>, have at least one character before that, and be followed by \<^verbatim>\<open>(\<close>.
\<close>

definition return_match :: "string \<Rightarrow> string option" where
  "return_match line =
     (let s = dropWhile is_space line
      in if \<not> prefix ''return p.'' s then None
         else
           let r = drop (length ''return p.'') s;
               w = takeWhile is_word r;
               r1 = dropWhile is_word r
           in if 6 < length w \<and> suffix ''Cursor'' w \<and> prefix ''('' r1
              then Some w else None)"

section \<open>The scanner: \<^verbatim>\<open>find_dispatchers\<close>\<close>

record dispatcher =
  name :: string
  cursor_name :: string
  start_line :: nat
  end_line :: nat
  params :: string
  return_type :: string

function skip_blank :: "string list \<Rightarrow> nat \<Rightarrow> error + nat" where
  \<comment> \<open>lines 32-33: \<^verbatim>\<open>while j < len(lines) and not lines[j].strip(): j += 1\<close>\<close>
  "skip_blank ls j =
     (if j < length ls then
        (case get_line ls j of
           Inl e \<Rightarrow> Inl e
         | Inr l \<Rightarrow> if strip l = [] then skip_blank ls (j + 1) else Inr j)
      else Inr j)"
  by pat_completeness auto
termination
  by (relation "measure (\<lambda>(ls, j). length ls - j)") auto

function find_close :: "string list \<Rightarrow> nat \<Rightarrow> error + nat" where
  \<comment> \<open>lines 45-46: \<^verbatim>\<open>while k < len(lines) and lines[k].strip() != '}': k += 1\<close>\<close>
  "find_close ls k =
     (if k < length ls then
        (case get_line ls k of
           Inl e \<Rightarrow> Inl e
         | Inr l \<Rightarrow> if strip l \<noteq> ''}'' then find_close ls (k + 1) else Inr k)
      else Inr k)"
  by pat_completeness auto
termination
  by (relation "measure (\<lambda>(ls, k). length ls - k)") auto

text \<open>
  The body of the outer loop for one index \<open>i\<close> (lines 21-57): the record appended at
  line 49, if any. Every path that appends nothing leaves \<open>i\<close> as it is.
\<close>

definition scan_at :: "string list \<Rightarrow> nat \<Rightarrow> error + dispatcher option" where
  "scan_at ls i =
     (case get_line ls i of
        Inl e \<Rightarrow> Inl e
      | Inr line \<Rightarrow>
          (case func_match line of
             None \<Rightarrow> Inr None
           | Some (func_name, ps, rt) \<Rightarrow>
               (case skip_blank ls (i + 1) of
                  Inl e \<Rightarrow> Inl e
                | Inr j \<Rightarrow>
                    if j < length ls then
                      (case get_line ls j of
                         Inl e \<Rightarrow> Inl e
                       | Inr lj \<Rightarrow>
                           (case return_match lj of
                              None \<Rightarrow> Inr None
                            | Some cursor_func \<Rightarrow>
                                if cursor_func = func_name @ ''Cursor'' then
                                  (case find_close ls (j + 1) of
                                     Inl e \<Rightarrow> Inl e
                                   | Inr k \<Rightarrow>
                                       if k < length ls then
                                         Inr (Some \<lparr>name = func_name,
                                                    cursor_name = cursor_func,
                                                    start_line = i,
                                                    end_line = k,
                                                    params = ps,
                                                    return_type = strip rt\<rparr>)
                                       else Inr None)
                                else Inr None))
                    else Inr None)))"

text \<open>
  The two inner loops only move forward, so a record ends after the line it starts at;
  the outer loop needs this to terminate.
\<close>

declare skip_blank.simps [simp del] find_close.simps [simp del]

lemma find_close_ge: "find_close ls k = Inr k' \<Longrightarrow> k \<le> k'"
proof (induction ls k rule: find_close.induct)
  case (1 ls k)
  show ?case
  proof (cases "k < length ls \<and> strip (ls ! k) \<noteq> ''}''")
    case True
    with "1.prems" have "find_close ls (k + 1) = Inr k'"
      by (subst (asm) find_close.simps) (simp add: get_line_def)
    with True "1.IH" [of "ls ! k"] have "k + 1 \<le> k'"
      by (simp add: get_line_def)
    then show ?thesis by simp
  next
    case False
    with "1.prems" show ?thesis
      by (subst (asm) find_close.simps) (auto simp: get_line_def split: if_splits)
  qed
qed

lemma skip_blank_ge: "skip_blank ls j = Inr j' \<Longrightarrow> j \<le> j'"
proof (induction ls j rule: skip_blank.induct)
  case (1 ls j)
  show ?case
  proof (cases "j < length ls \<and> strip (ls ! j) = []")
    case True
    with "1.prems" have "skip_blank ls (j + 1) = Inr j'"
      by (subst (asm) skip_blank.simps) (simp add: get_line_def)
    with True "1.IH" [of "ls ! j"] have "j + 1 \<le> j'"
      by (simp add: get_line_def)
    then show ?thesis by simp
  next
    case False
    with "1.prems" show ?thesis
      by (subst (asm) skip_blank.simps) (auto simp: get_line_def split: if_splits)
  qed
qed

lemma scan_at_Some:
  assumes "scan_at ls i = Inr (Some d)"
  shows "start_line d = i \<and> i < end_line d \<and> end_line d < length ls"
proof -
  from assms obtain j k where
    j: "skip_blank ls (i + 1) = Inr j" and k: "find_close ls (j + 1) = Inr k"
    and d: "start_line d = i" "end_line d = k" "k < length ls"
    unfolding scan_at_def
    by (auto split: sum.splits option.splits prod.splits if_splits)
  from skip_blank_ge [OF j] find_close_ge [OF k] d show ?thesis by simp
qed

function find_loop :: "string list \<Rightarrow> nat \<Rightarrow> dispatcher list \<Rightarrow> error + dispatcher list" where
  \<comment> \<open>lines 20-58: after a record the scan goes on at the line after its \<^verbatim>\<open>end_line\<close>
      (\<^verbatim>\<open>i = k\<close>, then \<^verbatim>\<open>i += 1\<close>), otherwise at the next line\<close>
  "find_loop ls i acc =
     (if i < length ls then
        (case scan_at ls i of
           Inl e \<Rightarrow> Inl e
         | Inr None \<Rightarrow> find_loop ls (i + 1) acc
         | Inr (Some d) \<Rightarrow> find_loop ls (end_line d + 1) (acc @ [d]))
      else Inr acc)"
  by pat_completeness auto
termination
proof (relation "measure (\<lambda>(ls, i, acc). length ls - i)", goal_cases)
  case 1
  show ?case by simp
next
  case (2 ls i acc x)
  then show ?case by simp
next
  case (3 ls i acc x d)
  then have "i < end_line d"
    using scan_at_Some [of ls i d] by simp
  with 3 show ?case by simp
qed

declare find_loop.simps [simp del]

definition find_dispatchers :: "string \<Rightarrow> error + dispatcher list" where
  "find_dispatchers content = find_loop (split_nl content) 0 []"

section \<open>The eliminator: \<^verbatim>\<open>remove_dispatchers\<close>\<close>

definition sorted_desc :: "dispatcher list \<Rightarrow> dispatcher list" where
  \<comment> \<open>line 67: \<^verbatim>\<open>sorted(dispatchers, key=start_line, reverse=True)\<close>, a stable sort:
      records with the same key keep their order\<close>
  "sorted_desc ds = rev (sort_key start_line (rev ds))"

fun extend_start :: "string list \<Rightarrow> nat \<Rightarrow> error + nat" where
  \<comment> \<open>lines 75-76: \<^verbatim>\<open>while start > 0 and not lines[start - 1].strip(): start -= 1\<close>\<close>
  "extend_start ls 0 = Inr 0"
| "extend_start ls (Suc n) =
     (case get_line ls n of
        Inl e \<Rightarrow> Inl e
      | Inr l \<Rightarrow> if strip l = [] then extend_start ls n else Inr (Suc n))"

definition del_slice :: "'a list \<Rightarrow> nat \<Rightarrow> nat \<Rightarrow> 'a list" where
  \<comment> \<open>\<^verbatim>\<open>del lines[a:b]\<close> for bounds that are not negative: a slice is clipped to the list,
      and an empty slice deletes nothing\<close>
  "del_slice ls a b = take a ls @ drop (max a b) ls"

definition remove_one :: "string list \<Rightarrow> dispatcher \<Rightarrow> error + string list" where
  \<comment> \<open>lines 70-81, the body of the loop for one record\<close>
  "remove_one ls d =
     (case extend_start ls (start_line d) of
        Inl e \<Rightarrow> Inl e
      | Inr s \<Rightarrow>
          let start = (if 0 < s then s + 1 else s)
          in Inr (del_slice ls start (end_line d + 1)))"

fun remove_all :: "string list \<Rightarrow> dispatcher list \<Rightarrow> error + string list" where
  \<comment> \<open>lines 69-81: the loop over the sorted records\<close>
  "remove_all ls [] = Inr ls"
| "remove_all ls (d # ds) =
     (case remove_one ls d of
        Inl e \<Rightarrow> Inl e
      | Inr ls' \<Rightarrow> remove_all ls' ds)"

definition remove_dispatchers :: "string \<Rightarrow> dispatcher list \<Rightarrow> error + string" where
  "remove_dispatchers content ds =
     (case remove_all (split_nl content) (sorted_desc ds) of
        Inl e \<Rightarrow> Inl e
      | Inr ls \<Rightarrow> Inr (join_nl ls))"

section \<open>The rewriter: \<^verbatim>\<open>rename_cursor_functions\<close>\<close>

text \<open>
  Line 100 substitutes the pattern \<^verbatim>\<open>\bfunc \(p \*Parser\) NAME\(\<close>, where \<^verbatim>\<open>NAME\<close> is
  a recorded \<^verbatim>\<open>cursor_name\<close>, by \<^verbatim>\<open>func (p *Parser) BASE(\<close>. The scanner records names
  of word characters only, for which the pattern is the literal text. \<^verbatim>\<open>re.sub\<close> goes
  through the line from the left and replaces every match that does not overlap an
  earlier one. \<^verbatim>\<open>\b\<close> before the letter \<^verbatim>\<open>f\<close> holds at the start of the line and after
  a character that is no word character: the flag \<open>b\<close>. A match ends in \<^verbatim>\<open>(\<close>, so the
  flag holds after it.
\<close>

definition decl_pattern :: "string \<Rightarrow> string" where
  "decl_pattern cn = func_prefix @ cn @ ''(''"

definition decl_replacement :: "string \<Rightarrow> string" where
  \<comment> \<open>\<^verbatim>\<open>base_name = cursor_name[:-6]\<close>\<close>
  "decl_replacement cn = func_prefix @ take (length cn - 6) cn @ ''(''"

function sub_decl :: "string \<Rightarrow> bool \<Rightarrow> string \<Rightarrow> string" where
  "sub_decl cn b [] = []"
| "sub_decl cn b (c # cs) =
     (if b \<and> prefix (decl_pattern cn) (c # cs)
      then decl_replacement cn @ sub_decl cn True (drop (length (decl_pattern cn) - 1) cs)
      else c # sub_decl cn (\<not> is_word c) cs)"
  by pat_completeness auto
termination
  by (relation "measure (\<lambda>(cn, b, s). length s)") auto

definition rename_line :: "string list \<Rightarrow> string \<Rightarrow> string" where
  \<comment> \<open>lines 94-104: one substitution after the other, in the order of the names\<close>
  "rename_line names l = fold (\<lambda>cn l'. sub_decl cn True l') names l"

definition rename_in_order :: "string list \<Rightarrow> string \<Rightarrow> string" where
  \<comment> \<open>lines 90-108 for the names in the order in which the set is iterated\<close>
  "rename_in_order names content = join_nl (map (rename_line names) (split_nl content))"

text \<open>
  \<^verbatim>\<open>cursor_names\<close> is a Python set: every name once, in an order the language leaves
  open. \<open>rename_cursor_functions\<close> takes one of these orders (each name where it occurs
  last in the records); the result depends on the order only when one recorded name is
  another one followed by \<^verbatim>\<open>Cursor\<close>. The theorems about the rewriter and about the
  second scan are stated for \<open>rename_in_order\<close> and hold for every order.
\<close>

definition rename_cursor_functions :: "string \<Rightarrow> dispatcher list \<Rightarrow> string" where
  "rename_cursor_functions content ds =
     rename_in_order (remdups (map cursor_name ds)) content"

text \<open>
  Where the pattern of a name can match: at a place of the line where the text of the
  pattern starts and the flag of the word boundary holds.
\<close>

fun occurs_at_boundary :: "string \<Rightarrow> bool \<Rightarrow> string \<Rightarrow> bool" where
  "occurs_at_boundary p b [] = False"
| "occurs_at_boundary p b (c # cs) =
     ((b \<and> prefix p (c # cs)) \<or> occurs_at_boundary p (\<not> is_word c) cs)"

text \<open>
  What one substitution may do to a line, read from the left with the flag of the word
  boundary: copy a character, or, where the flag holds, replace a declaration text
  \<^verbatim>\<open>func (p *Parser) NAME(\<close> of a recorded name by \<^verbatim>\<open>func (p *Parser) BASE(\<close>. The
  rewriter makes one such pass for every name, each from the start of the line.
\<close>

inductive decl_pass :: "string list \<Rightarrow> bool \<Rightarrow> string \<Rightarrow> string \<Rightarrow> bool" for names where
  stop: "decl_pass names b [] []"
| keep: "decl_pass names (\<not> is_word c) s t \<Longrightarrow> decl_pass names b (c # s) (c # t)"
| decl: "cn \<in> set names \<Longrightarrow> decl_pass names True s t \<Longrightarrow>
         decl_pass names True (decl_pattern cn @ s) (decl_replacement cn @ t)"

inductive decl_rewrite :: "string list \<Rightarrow> string \<Rightarrow> string \<Rightarrow> bool" for names where
  same: "decl_rewrite names s s"
| pass: "decl_pass names True s t \<Longrightarrow> decl_rewrite names t u \<Longrightarrow> decl_rewrite names s u"

section \<open>The pipeline: \<^verbatim>\<open>process_file\<close>\<close>

text \<open>
  The text of the file after \<^verbatim>\<open>process_file\<close> (lines 117-136): nothing is written when
  the scanner finds no record.
\<close>

definition process_file :: "string \<Rightarrow> error + string" where
  "process_file content =
     (case find_dispatchers content of
        Inl e \<Rightarrow> Inl e
      | Inr ds \<Rightarrow>
          if ds = [] then Inr content
          else (case remove_dispatchers content ds of
                  Inl e \<Rightarrow> Inl e
                | Inr content' \<Rightarrow> Inr (rename_cursor_functions content' ds)))"

section \<open>The deletions of the code, computed on the original lines\<close>

text \<open>
  The range that lines 75-81 delete for a record, computed on the original lines: the
  rule of the code as it is, with the increment of line 78 also where no blank line
  stands before the header. One pass copies the lines outside every such range.
\<close>

fun back_over_blank :: "string list \<Rightarrow> nat \<Rightarrow> nat" where
  "back_over_blank ls 0 = 0"
| "back_over_blank ls (Suc n) =
     (if n < length ls \<and> strip (ls ! n) = [] then back_over_blank ls n else Suc n)"

definition deleted_from :: "string list \<Rightarrow> dispatcher \<Rightarrow> nat" where
  "deleted_from ls d =
     (let s = back_over_blank ls (start_line d) in if 0 < s then s + 1 else s)"

definition in_deleted :: "string list \<Rightarrow> dispatcher list \<Rightarrow> nat \<Rightarrow> bool" where
  "in_deleted ls ds i \<longleftrightarrow> (\<exists>d \<in> set ds. deleted_from ls d \<le> i \<and> i \<le> end_line d)"

definition forward_pass :: "string list \<Rightarrow> dispatcher list \<Rightarrow> string list" where
  "forward_pass ls ds =
     map snd (filter (\<lambda>(i, l). \<not> in_deleted ls ds i) (enumerate 0 ls))"

section \<open>The forward pass of the specification\<close>

text \<open>
  The span of a record as the specification has it: \<^verbatim>\<open>startLine..endLine\<close>, its start
  moved back over the blank lines before the header, but for the first of them, which
  stays (all of them go when the run starts the document). The header line is always
  inside the span. One forward pass copies the lines outside every span.
\<close>

definition span_from :: "string list \<Rightarrow> dispatcher \<Rightarrow> nat" where
  "span_from ls d =
     (let s = back_over_blank ls (start_line d)
      in if 0 < s \<and> s < start_line d then s + 1 else s)"

definition in_span :: "string list \<Rightarrow> dispatcher list \<Rightarrow> nat \<Rightarrow> bool" where
  "in_span ls ds i \<longleftrightarrow> (\<exists>d \<in> set ds. span_from ls d \<le> i \<and> i \<le> end_line d)"

definition copy_outside_spans :: "string list \<Rightarrow> dispatcher list \<Rightarrow> string list" where
  "copy_outside_spans ls ds =
     map snd (filter (\<lambda>(i, l). \<not> in_span ls ds i) (enumerate 0 ls))"

text \<open>
  What the records of the scanner have in common, as far as the eliminator needs it:
  they are in order without overlap, every range lies inside the document, and the last
  line of a range is not blank (it is the closing brace).
\<close>

definition valid_spans :: "string list \<Rightarrow> dispatcher list \<Rightarrow> bool" where
  "valid_spans ls ds \<longleftrightarrow>
     sorted_wrt (\<lambda>a b. end_line a < start_line b) ds \<and>
     (\<forall>d \<in> set ds. start_line d < end_line d \<and> end_line d < length ls \<and>
        strip (ls ! end_line d) \<noteq> [])"

section \<open>Conditions for the second scan\<close>


definition slip_free :: "string list \<Rightarrow> dispatcher list \<Rightarrow> bool" where
  "slip_free ls ds \<longleftrightarrow>
     list_all (\<lambda>d. start_line d = 0 \<or> strip (ls ! (start_line d - 1)) = []) ds"



section \<open>Example documents\<close>

text \<open>
  Two dispatchers, one with a blank line between its header and the forwarding
  statement, and the records the scanner returns for documents of this kind.
\<close>

definition parseA_header :: string where
  "parseA_header = ''func (p *Parser) parseA() Node {''"
definition parseA_forward :: string where
  "parseA_forward = CHR 0x09 # ''return p.parseACursor()''"
definition parseB_header :: string where
  "parseB_header = ''func (p *Parser) parseB(x int) Node {''"
definition parseB_forward :: string where
  "parseB_forward = CHR 0x09 # ''return p.parseBCursor(x)''"
definition rec_A :: "nat \<Rightarrow> nat \<Rightarrow> dispatcher" where
  "rec_A s e = \<lparr>name = ''parseA'', cursor_name = ''parseACursor'', start_line = s,
     end_line = e, params = '''', return_type = ''Node''\<rparr>"
definition rec_B :: "nat \<Rightarrow> nat \<Rightarrow> dispatcher" where
  "rec_B s e = \<lparr>name = ''parseB'', cursor_name = ''parseBCursor'', start_line = s,
     end_line = e, params = ''x int'', return_type = ''Node''\<rparr>"

definition doc_two :: string where
  "doc_two = join_nl [''package parser'', '''', parseA_header, parseA_forward, ''}'', '''', '''',
     parseB_header, '''', parseB_forward, ''}'', ''var x int'']"

text \<open>
  A dispatcher below a comment line; dispatchers below a run of three blank lines, at
  the start of the text and further down; a function whose first statement is the
  forward and whose second is another call; a function whose second statement is the
  forward; and a delegate whose first statement calls the delegate itself, with the text
  the pipeline makes of it.
\<close>

definition doc_comment_before :: string where
  "doc_comment_before =
     join_nl [''// parseA parses an A.'', parseA_header, parseA_forward, ''}'']"

definition doc_blank_top :: string where
  "doc_blank_top = join_nl ['''', '''', '''', parseA_header, parseA_forward, ''}'', ''var x int'']"

definition lines_blank_run :: "string list" where
  "lines_blank_run = [''import x'', '''', '''', '''', parseA_header, parseA_forward, ''}'', ''var x int'']"

definition doc_blank_run :: string where
  "doc_blank_run = join_nl lines_blank_run"

definition doc_forward_then_more :: string where
  "doc_forward_then_more =
     join_nl [parseA_header, parseA_forward, CHR 0x09 # ''p.cleanup()'', ''}'']"

definition doc_forward_second :: string where
  "doc_forward_second =
     join_nl [parseA_header, '''', CHR 0x09 # ''p.prepare()'', parseA_forward, ''}'',
       parseB_header, parseB_forward, ''}'']"





definition doc_other_receiver :: string where
  "doc_other_receiver =
     join_nl [parseA_header, parseA_forward, ''}'',
       ''func (l *Lexer) scanB() Tok {'', CHR 0x09 # ''return l.scanBCursor()'', ''}'',
       ''func (l *Lexer) scanBCursor() Tok {'', ''}'']"

definition doc_swallowed :: string where
  "doc_swallowed =
     join_nl [parseA_header, CHR 0x09 # ''return p.parseACursor() }'',
       ''func (l *Lexer) scanB() Tok {'', CHR 0x09 # ''return l.scanBCursor()'', ''}'',
       ''var x int'']"

text \<open>
  For the forward pass: two dispatchers, each below its comment. For the second scan: a
  dispatcher with its delegate, whose first statement calls another function, and the
  text the pipeline makes of it; a header two lines above a dispatcher, with its own
  forward below the dispatcher; and a dispatcher below a comment with a second forward
  and brace behind it.
\<close>

definition doc_two_comments :: string where
  "doc_two_comments =
     join_nl [''// parseA parses an A.'', parseA_header, parseA_forward, ''}'', '''',
       ''// parseB parses a B.'', parseB_header, parseB_forward, ''}'']"



definition doc_header_above :: string where
  "doc_header_above =
     join_nl [''func (p *Parser) parseX() Node {'', '''', parseA_header, parseA_forward, ''}'',
       CHR 0x09 # ''return p.parseXCursor()'', ''}'']"

definition doc_slip_rescan :: string where
  "doc_slip_rescan =
     join_nl [''// parseA parses an A.'', parseA_header, parseA_forward, ''}'',
       parseA_forward, ''}'']"

section \<open>Facts about the scanner\<close>

lemma skip_blank_total: "\<exists>j'. skip_blank ls j = Inr j'"
proof (induction ls j rule: skip_blank.induct)
  case (1 ls j)
  show ?case
  proof (cases "j < length ls \<and> strip (ls ! j) = []")
    case True
    with "1.IH" [of "ls ! j"] obtain j' where "skip_blank ls (j + 1) = Inr j'"
      by (auto simp: get_line_def)
    with True show ?thesis
      by (subst skip_blank.simps) (simp add: get_line_def)
  next
    case False
    then show ?thesis
      by (subst skip_blank.simps) (auto simp: get_line_def)
  qed
qed

lemma find_close_total: "\<exists>k'. find_close ls k = Inr k'"
proof (induction ls k rule: find_close.induct)
  case (1 ls k)
  show ?case
  proof (cases "k < length ls \<and> strip (ls ! k) \<noteq> ''}''")
    case True
    with "1.IH" [of "ls ! k"] obtain k' where "find_close ls (k + 1) = Inr k'"
      by (auto simp: get_line_def)
    with True show ?thesis
      by (subst find_close.simps) (simp add: get_line_def)
  next
    case False
    then show ?thesis
      by (subst find_close.simps) (auto simp: get_line_def)
  qed
qed

lemma skip_blank_props:
  "skip_blank ls j = Inr j' \<Longrightarrow>
     (\<forall>i. j \<le> i \<and> i < j' \<longrightarrow> i < length ls \<and> strip (ls ! i) = []) \<and>
     (j' < length ls \<longrightarrow> j \<le> j' \<and> strip (ls ! j') \<noteq> [])"
proof (induction ls j rule: skip_blank.induct)
  case (1 ls j)
  show ?case
  proof (cases "j < length ls \<and> strip (ls ! j) = []")
    case True
    with "1.prems" have r: "skip_blank ls (j + 1) = Inr j'"
      by (subst (asm) skip_blank.simps) (simp add: get_line_def)
    from skip_blank_ge [OF r] have "j < j'" by simp
    moreover from True "1.IH" [of "ls ! j"] r
    have "(\<forall>i. j + 1 \<le> i \<and> i < j' \<longrightarrow> i < length ls \<and> strip (ls ! i) = []) \<and>
     (j' < length ls \<longrightarrow> j + 1 \<le> j' \<and> strip (ls ! j') \<noteq> [])"
      by (simp add: get_line_def)
    ultimately show ?thesis using True
      by (metis Suc_eq_plus1 Suc_leI le_neq_implies_less less_or_eq_imp_le)
  next
    case False
    with "1.prems" have "j' = j"
      by (subst (asm) skip_blank.simps) (auto simp: get_line_def split: if_splits)
    with False show ?thesis by auto
  qed
qed

lemma find_close_props:
  "find_close ls k = Inr k' \<Longrightarrow> k' < length ls \<Longrightarrow> strip (ls ! k') = ''}''"
proof (induction ls k rule: find_close.induct)
  case (1 ls k)
  show ?case
  proof (cases "k < length ls \<and> strip (ls ! k) \<noteq> ''}''")
    case True
    with "1.prems" have r: "find_close ls (k + 1) = Inr k'"
      by (subst (asm) find_close.simps) (simp add: get_line_def)
    with True "1.IH" [of "ls ! k"] "1.prems" show ?thesis
      by (simp add: get_line_def)
  next
    case False
    with "1.prems" have "k' = k"
      by (subst (asm) find_close.simps) (auto simp: get_line_def split: if_splits)
    with False "1.prems" show ?thesis by auto
  qed
qed

lemma scan_at_total: "i < length ls \<Longrightarrow> \<exists>r. scan_at ls i = Inr r"
  using skip_blank_total [of ls "i + 1"] find_close_total [of ls]
  unfolding scan_at_def get_line_def
  by (auto split: sum.splits option.splits prod.splits) (metis Inl_Inr_False)+

lemma find_loop_total: "\<exists>ds. find_loop ls i acc = Inr ds"
proof (induction ls i acc rule: find_loop.induct)
  case (1 ls i acc)
  show ?case
  proof (cases "i < length ls")
    case False
    then show ?thesis by (subst find_loop.simps) simp
  next
    case True
    from scan_at_total [OF True] obtain r where r: "scan_at ls i = Inr r" ..
    show ?thesis
    proof (cases r)
      case None
      with "1.IH"(1) [OF True r] True r show ?thesis
        by (subst find_loop.simps) simp
    next
      case (Some d)
      with "1.IH"(2) [OF True r] True r show ?thesis
        by (subst find_loop.simps) simp
    qed
  qed
qed

lemma find_loop_spec:
  "find_loop ls i acc = Inr ds \<Longrightarrow>
   \<exists>new. ds = acc @ new \<and>
     (\<forall>d \<in> set new. scan_at ls (start_line d) = Inr (Some d) \<and> i \<le> start_line d) \<and>
     sorted_wrt (\<lambda>a b. end_line a < start_line b) new"
proof (induction ls i acc arbitrary: ds rule: find_loop.induct)
  case (1 ls i acc)
  show ?case
  proof (cases "i < length ls")
    case False
    with "1.prems" have "ds = acc" by (subst (asm) find_loop.simps) simp
    then show ?thesis by simp
  next
    case True
    from scan_at_total [OF True] obtain r where r: "scan_at ls i = Inr r" ..
    show ?thesis
    proof (cases r)
      case None
      with "1.prems" True r have "find_loop ls (i + 1) acc = Inr ds"
        by (subst (asm) find_loop.simps) simp
      from "1.IH"(1) [OF True r None this] show ?thesis
        by (auto intro: Suc_leD)
    next
      case (Some d)
      with "1.prems" True r have "find_loop ls (end_line d + 1) (acc @ [d]) = Inr ds"
        by (subst (asm) find_loop.simps) simp
      from "1.IH"(2) [OF True r Some this] obtain new where
        new: "ds = (acc @ [d]) @ new"
        "\<forall>x \<in> set new. scan_at ls (start_line x) = Inr (Some x) \<and> end_line d + 1 \<le> start_line x"
        "sorted_wrt (\<lambda>a b. end_line a < start_line b) new"
        by blast
      from scan_at_Some [OF r [unfolded Some]] have d: "start_line d = i" "i < end_line d"
        by simp_all
      have "ds = acc @ (d # new)" using new(1) by simp
      moreover have "\<forall>x \<in> set (d # new). scan_at ls (start_line x) = Inr (Some x) \<and> i \<le> start_line x"
        using new(2) d r Some by auto
      moreover have "sorted_wrt (\<lambda>a b. end_line a < start_line b) (d # new)"
        using new(2,3) by auto
      ultimately show ?thesis by blast
    qed
  qed
qed

lemma func_match_Some:
  assumes "func_match l = Some (n, ps, rt)"
  shows "\<exists>w. n = ''parse'' @ w \<and> w \<noteq> [] \<and> (\<forall>c \<in> set w. is_word c) \<and>
             prefix (func_prefix @ n @ ''('') l"
proof -
  define P where "P = func_prefix @ ''parse''"
  define r where "r = drop (length P) l"
  define w where "w = takeWhile is_word r"
  have fm: "func_match l =
     (if \<not> prefix P l then None
      else if w = [] then None
           else (case dropWhile is_word r of
                   [] \<Rightarrow> None
                 | c # r2 \<Rightarrow>
                     if c \<noteq> CHR ''('' then None
                     else
                       let ps = takeWhile (\<lambda>x. x \<noteq> CHR '')'') r2;
                           r3 = dropWhile (\<lambda>x. x \<noteq> CHR '')'') r2
                       in if r3 = [] \<or> CHR 0x0A \<in> set ps then None
                          else
                            let rt = takeWhile (\<lambda>x. x \<noteq> CHR ''{'') (tl r3);
                                r4 = dropWhile (\<lambda>x. x \<noteq> CHR ''{'') (tl r3)
                            in if r4 = [] \<or> CHR 0x0A \<in> set rt then None
                               else Some (''parse'' @ w, ps, rt)))"
    unfolding func_match_def P_def r_def w_def Let_def ..
  from assms have p: "prefix P l"
    unfolding fm by (simp split: if_splits)
  from assms p have w: "w \<noteq> []"
    unfolding fm by (simp split: if_splits)
  from assms p w obtain r2 where r2: "dropWhile is_word r = CHR ''('' # r2"
    unfolding fm by (simp split: list.splits if_splits)
  from assms p w r2 have n: "n = ''parse'' @ w"
    unfolding fm by (simp add: Let_def split: if_splits)
  from p have l: "l = P @ r"
    unfolding r_def by (metis append_take_drop_id prefixE append_eq_conv_conj)
  from r2 have "r = w @ CHR ''('' # r2"
    unfolding w_def by (metis takeWhile_dropWhile_id)
  with l have "l = (func_prefix @ n @ ''('') @ r2"
    using n by (simp add: P_def)
  then have "prefix (func_prefix @ n @ ''('') l"
    by (metis prefixI)
  moreover have "\<forall>c \<in> set w. is_word c"
    unfolding w_def by (auto dest: set_takeWhileD)
  ultimately show ?thesis using w n by blast
qed

lemma scan_at_SomeD:
  assumes "scan_at ls i = Inr (Some d)"
  shows "\<exists>ps rt j. func_match (ls ! i) = Some (name d, ps, rt) \<and>
           params d = ps \<and> return_type d = strip rt \<and>
           cursor_name d = name d @ ''Cursor'' \<and>
           start_line d = i \<and> i < j \<and> j < end_line d \<and> end_line d < length ls \<and>
           (\<forall>m. i < m \<and> m < j \<longrightarrow> strip (ls ! m) = []) \<and>
           return_match (ls ! j) = Some (name d @ ''Cursor'') \<and>
           strip (ls ! end_line d) = ''}''"
proof -
  from assms obtain n ps rt j k where
    f: "func_match (ls ! i) = Some (n, ps, rt)"
    and j: "skip_blank ls (i + 1) = Inr j" "j < length ls"
    and r: "return_match (ls ! j) = Some (n @ ''Cursor'')"
    and k: "find_close ls (j + 1) = Inr k" "k < length ls"
    and d: "d = \<lparr>name = n, cursor_name = n @ ''Cursor'', start_line = i, end_line = k,
                 params = ps, return_type = strip rt\<rparr>"
    unfolding scan_at_def get_line_def
    by (auto split: sum.splits option.splits prod.splits if_splits)
  from skip_blank_props [OF j(1)] j(2)
  have "i < j" "\<forall>m. i < m \<and> m < j \<longrightarrow> strip (ls ! m) = []"
    by auto
  moreover from find_close_ge [OF k(1)] have "j < k" by simp
  moreover note find_close_props [OF k] f r k(2)
  ultimately show ?thesis unfolding d by auto
qed

lemma find_dispatchers_records:
  assumes "find_dispatchers content = Inr ds"
  shows "(\<forall>d \<in> set ds. scan_at (split_nl content) (start_line d) = Inr (Some d)) \<and>
         sorted_wrt (\<lambda>a b. end_line a < start_line b) ds"
  using find_loop_spec [OF assms [unfolded find_dispatchers_def]] by auto

lemma doc_two_scan: "find_dispatchers doc_two = Inr [rec_A 2 4, rec_B 7 10]"
  by code_simp

lemma strip_empty_iff: "strip l = [] \<longleftrightarrow> (\<forall>c \<in> set l. is_space c)"
proof
  assume "strip l = []"
  then have "dropWhile is_space (rev (dropWhile is_space l)) = []"
    by (simp add: strip_def)
  then have a: "\<forall>c \<in> set (dropWhile is_space l). is_space c"
    by (simp add: dropWhile_eq_Nil_conv)
  have "dropWhile is_space l = []"
  proof (rule ccontr)
    assume n: "dropWhile is_space l \<noteq> []"
    then have "\<not> is_space (hd (dropWhile is_space l))"
      by (rule hd_dropWhile)
    with a n show False by (metis hd_in_set)
  qed
  then show "\<forall>c \<in> set l. is_space c"
    by (simp add: dropWhile_eq_Nil_conv)
next
  assume "\<forall>c \<in> set l. is_space c"
  then have e: "dropWhile is_space l = []"
    by (simp add: dropWhile_eq_Nil_conv)
  show "strip l = []"
    unfolding strip_def e by simp
qed

lemma return_match_not_blank: "return_match l = Some c \<Longrightarrow> strip l \<noteq> []"
proof
  assume m: "return_match l = Some c" and "strip l = []"
  then have "dropWhile is_space l = []"
    by (simp add: strip_empty_iff dropWhile_eq_Nil_conv)
  with m show False
    by (simp add: return_match_def Let_def split: if_splits)
qed

section \<open>Facts about the eliminator\<close>

lemma extend_start_eq: "s \<le> length ls \<Longrightarrow> extend_start ls s = Inr (back_over_blank ls s)"
  by (induction s) (simp_all add: get_line_def)

lemma back_over_blank_le: "back_over_blank ls s \<le> s"
  by (induction s) (auto intro: le_SucI)

lemma back_over_blank_append:
  "s \<le> length a \<Longrightarrow> back_over_blank (a @ r) s = back_over_blank a s"
  by (induction s) (simp_all add: nth_append)

lemma back_over_blank_stop:
  "n < s \<Longrightarrow> n < length ls \<Longrightarrow> strip (ls ! n) \<noteq> [] \<Longrightarrow> n < back_over_blank ls s"
proof (induction s)
  case 0
  then show ?case by simp
next
  case (Suc m)
  show ?case
  proof (cases "m < length ls \<and> strip (ls ! m) = []")
    case True
    with Suc.prems have "n \<noteq> m" by auto
    with Suc.prems have "n < m" by simp
    with Suc True show ?thesis by simp
  next
    case False
    with Suc.prems show ?thesis by auto
  qed
qed

lemma deleted_from_append:
  "start_line d \<le> length a \<Longrightarrow> deleted_from (a @ r) d = deleted_from a d"
  by (simp add: deleted_from_def back_over_blank_append)

lemma deleted_from_le: "deleted_from ls d \<le> start_line d + 1"
  using back_over_blank_le [of ls "start_line d"] by (simp add: deleted_from_def Let_def)

lemma deleted_from_gt:
  assumes "n < start_line d" "n < length ls" "strip (ls ! n) \<noteq> []"
  shows "n < deleted_from ls d"
  using back_over_blank_stop [OF assms] by (simp add: deleted_from_def Let_def)

lemma remove_one_eq:
  "start_line d \<le> length ls \<Longrightarrow>
   remove_one ls d = Inr (del_slice ls (deleted_from ls d) (end_line d + 1))"
  by (simp add: remove_one_def extend_start_eq deleted_from_def Let_def)

lemma keep_all:
  "(\<And>i. n \<le> i \<Longrightarrow> i < n + length xs \<Longrightarrow> P i) \<Longrightarrow>
   map snd (filter (\<lambda>(i, l). P i) (enumerate n xs)) = xs"
  by (induction xs arbitrary: n) simp_all

lemma keep_none:
  "(\<And>i. n \<le> i \<Longrightarrow> i < n + length xs \<Longrightarrow> \<not> P i) \<Longrightarrow>
   map snd (filter (\<lambda>(i, l). P i) (enumerate n xs)) = []"
  by (induction xs arbitrary: n) simp_all

lemma keep_cong:
  "(\<And>i. n \<le> i \<Longrightarrow> i < n + length xs \<Longrightarrow> P i = Q i) \<Longrightarrow>
   map snd (filter (\<lambda>(i, l). P i) (enumerate n xs)) =
   map snd (filter (\<lambda>(i, l). Q i) (enumerate n xs))"
  by (induction xs arbitrary: n) simp_all

lemma in_deleted_append:
  assumes "\<forall>x \<in> set xs. start_line x \<le> length a"
  shows "in_deleted (a @ r) xs i = in_deleted a xs i"
  using assms by (auto simp: in_deleted_def deleted_from_append)

lemma in_deleted_snoc:
  "in_deleted ls (xs @ [d]) i \<longleftrightarrow>
     in_deleted ls xs i \<or> (deleted_from ls d \<le> i \<and> i \<le> end_line d)"
  by (auto simp: in_deleted_def)

lemma in_deleted_beyond:
  "\<forall>x \<in> set xs. end_line x < i \<Longrightarrow> \<not> in_deleted ls xs i"
  by (auto simp: in_deleted_def)

lemma forward_pass_Nil: "forward_pass ls [] = ls"
  unfolding forward_pass_def by (rule keep_all) (simp add: in_deleted_def)

lemma forward_pass_append:
  assumes "\<forall>x \<in> set xs. start_line x \<le> end_line x \<and> end_line x < length a"
  shows "forward_pass (a @ r) xs = forward_pass a xs @ r"
proof -
  have st: "\<forall>x \<in> set xs. start_line x \<le> length a"
    using assms by force
  have 1: "map snd (filter (\<lambda>(i, l). \<not> in_deleted (a @ r) xs i) (enumerate 0 a)) =
           map snd (filter (\<lambda>(i, l). \<not> in_deleted a xs i) (enumerate 0 a))"
    by (rule keep_cong) (simp add: in_deleted_append [OF st])
  have 2: "map snd (filter (\<lambda>(i, l). \<not> in_deleted (a @ r) xs i) (enumerate (length a) r)) = r"
  proof (rule keep_all)
    fix i assume "length a \<le> i"
    with assms have "\<forall>x \<in> set xs. end_line x < i" by force
    then show "\<not> in_deleted (a @ r) xs i" by (rule in_deleted_beyond)
  qed
  show ?thesis
    unfolding forward_pass_def enumerate_append_eq filter_append map_append
    using 1 2 by simp
qed

lemma forward_pass_snoc:
  assumes len: "length a = deleted_from (a @ b @ c) d" "length a + length b = end_line d + 1"
    and xs: "\<forall>x \<in> set xs. start_line x \<le> end_line x \<and> end_line x < length a"
  shows "forward_pass (a @ b @ c) (xs @ [d]) = forward_pass a xs @ c"
proof -
  let ?ls = "a @ b @ c"
  have st: "\<forall>x \<in> set xs. start_line x \<le> length a"
    using xs by force
  have 1: "map snd (filter (\<lambda>(i, l). \<not> in_deleted ?ls (xs @ [d]) i) (enumerate 0 a)) =
           map snd (filter (\<lambda>(i, l). \<not> in_deleted a xs i) (enumerate 0 a))"
  proof (rule keep_cong)
    fix i assume "i < 0 + length a"
    then show "(\<not> in_deleted ?ls (xs @ [d]) i) = (\<not> in_deleted a xs i)"
      using len(1) by (simp add: in_deleted_snoc in_deleted_append [OF st])
  qed
  have 2: "map snd (filter (\<lambda>(i, l). \<not> in_deleted ?ls (xs @ [d]) i) (enumerate (length a) b)) = []"
  proof (rule keep_none)
    fix i assume "length a \<le> i" "i < length a + length b"
    then show "\<not> \<not> in_deleted ?ls (xs @ [d]) i"
      using len by (simp add: in_deleted_snoc)
  qed
  have 3: "map snd (filter (\<lambda>(i, l). \<not> in_deleted ?ls (xs @ [d]) i)
             (enumerate (length a + length b) c)) = c"
  proof (rule keep_all)
    fix i assume i: "length a + length b \<le> i"
    with xs have "\<forall>x \<in> set xs. end_line x < i" by force
    then have "\<not> in_deleted ?ls xs i" by (rule in_deleted_beyond)
    with i len(2) show "\<not> in_deleted ?ls (xs @ [d]) i"
      by (simp add: in_deleted_snoc)
  qed
  show ?thesis
    unfolding forward_pass_def enumerate_append_eq filter_append map_append
    using 1 2 3 by (simp add: add.commute)
qed

lemma valid_spans_snocD:
  assumes "valid_spans ls (xs @ [d])"
  shows "start_line d < end_line d" "end_line d < length ls"
    "\<forall>x \<in> set xs. start_line x < end_line x \<and> end_line x < deleted_from ls d"
    "sorted_wrt (\<lambda>a b. end_line a < start_line b) xs"
proof -
  from assms show d: "start_line d < end_line d" "end_line d < length ls"
    and "sorted_wrt (\<lambda>a b. end_line a < start_line b) xs"
    by (simp_all add: valid_spans_def sorted_wrt_append)
  show "\<forall>x \<in> set xs. start_line x < end_line x \<and> end_line x < deleted_from ls d"
  proof
    fix x assume x: "x \<in> set xs"
    with assms have a: "start_line x < end_line x" "end_line x < length ls"
      "strip (ls ! end_line x) \<noteq> []" "end_line x < start_line d"
      by (auto simp: valid_spans_def sorted_wrt_append)
    from deleted_from_gt [OF a(4,2,3)] a(1)
    show "start_line x < end_line x \<and> end_line x < deleted_from ls d" by simp
  qed
qed

lemma remove_all_forward_pass:
  "valid_spans ls ds \<Longrightarrow> remove_all ls (rev ds) = Inr (forward_pass ls ds)"
proof (induction ds arbitrary: ls rule: rev_induct)
  case Nil
  then show ?case by (simp add: forward_pass_Nil)
next
  case (snoc d xs)
  note v = valid_spans_snocD [OF snoc.prems]
  define f where "f = deleted_from ls d"
  define a where "a = take f ls"
  define b where "b = take (end_line d + 1 - f) (drop f ls)"
  define c where "c = drop (end_line d + 1) ls"
  have f: "f \<le> end_line d" "f \<le> length ls"
    using deleted_from_le [of ls d] v(1,2) by (simp_all add: f_def)
  have ls: "ls = a @ b @ c"
    unfolding a_def b_def c_def using f
    by (metis Suc_eq_plus1 add_diff_inverse_nat append_take_drop_id drop_drop le_imp_less_Suc
        not_less_iff_gr_or_eq take_drop add.commute)
  have la: "length a = f" using f by (simp add: a_def)
  have lb: "length a + length b = end_line d + 1"
    using f v(2) by (simp add: a_def b_def)
  have one: "remove_one ls d = Inr (a @ c)"
    using v(1,2) f by (simp add: remove_one_eq del_slice_def a_def c_def f_def max_def)
  have xs: "\<forall>x \<in> set xs. start_line x \<le> end_line x \<and> end_line x < length a"
    using v(3) la by (auto simp: f_def)
  have "valid_spans (a @ c) xs"
    unfolding valid_spans_def
  proof (intro conjI ballI)
    show "sorted_wrt (\<lambda>a b. end_line a < start_line b) xs" by (rule v(4))
  next
    fix x assume x: "x \<in> set xs"
    with v(3) show "start_line x < end_line x" by simp
    from x xs have e: "end_line x < length a" by simp
    then show "end_line x < length (a @ c)" by simp
    from x snoc.prems have "strip (ls ! end_line x) \<noteq> []"
      by (simp add: valid_spans_def)
    with e show "strip ((a @ c) ! end_line x) \<noteq> []"
      by (subst (asm) ls) (simp add: nth_append)
  qed
  from snoc.IH [OF this] have "remove_all (a @ c) (rev xs) = Inr (forward_pass (a @ c) xs)" .
  also have "forward_pass (a @ c) xs = forward_pass a xs @ c"
    by (rule forward_pass_append [OF xs])
  also have "forward_pass a xs @ c = forward_pass (a @ b @ c) (xs @ [d])"
    by (rule forward_pass_snoc [symmetric]) (use la lb xs ls in \<open>simp_all add: f_def\<close>)
  finally show ?case
    using one ls by simp
qed

lemma insort_key_last:
  "\<forall>y \<in> set xs. f y < f x \<Longrightarrow> insort_key f x xs = xs @ [x]"
  by (induction xs) auto

lemma sort_key_rev_ascending:
  "sorted_wrt (\<lambda>a b. f a < f b) ds \<Longrightarrow> sort_key f (rev ds) = ds"
  by (induction ds rule: rev_induct) (simp_all add: sorted_wrt_append insort_key_last)

lemma split_nl_not_Nil: "split_nl s \<noteq> []"
  by (induction s) (simp_all add: Let_def)

lemma join_nl_Cons_char: "join_nl ((c # m) # ls) = c # join_nl (m # ls)"
  by (cases ls) simp_all

lemma join_nl_Nil_line: "ls \<noteq> [] \<Longrightarrow> join_nl ([] # ls) = CHR 0x0A # join_nl ls"
  by (cases ls) simp_all

lemma join_split: "join_nl (split_nl s) = s"
proof (induction s)
  case Nil
  show ?case by simp
next
  case (Cons c cs)
  obtain m ls where r: "split_nl cs = m # ls"
    using split_nl_not_Nil [of cs] by (cases "split_nl cs") simp_all
  with Cons show ?case
    by (simp add: Let_def join_nl_Cons_char join_nl_Nil_line)
qed

lemma find_dispatchers_valid:
  assumes "find_dispatchers content = Inr ds"
  shows "valid_spans (split_nl content) ds"
  unfolding valid_spans_def
proof (intro conjI ballI)
  from find_dispatchers_records [OF assms]
  show "sorted_wrt (\<lambda>a b. end_line a < start_line b) ds" by simp
next
  fix d assume "d \<in> set ds"
  with find_dispatchers_records [OF assms]
  have "scan_at (split_nl content) (start_line d) = Inr (Some d)" by simp
  from scan_at_SomeD [OF this]
  show "start_line d < end_line d" "end_line d < length (split_nl content)"
    "strip (split_nl content ! end_line d) \<noteq> []"
    by auto
qed

lemma valid_spans_starts:
  assumes "valid_spans ls ds"
  shows "sorted_wrt (\<lambda>a b. start_line a < start_line b) ds"
proof -
  from assms have so: "sorted_wrt (\<lambda>a b. end_line a < start_line b) ds"
    and lt: "\<forall>d \<in> set ds. start_line d < end_line d"
    by (simp_all add: valid_spans_def)
  show ?thesis
  proof (rule sorted_wrt_mono_rel [OF _ so])
    fix a b assume "a \<in> set ds" "end_line a < start_line b"
    with lt show "start_line a < start_line b" by force
  qed
qed

lemma valid_spans_sorted_desc:
  assumes "valid_spans ls ds"
  shows "sorted_desc ds = rev ds"
proof -
  from valid_spans_starts [OF assms] show ?thesis
    by (simp add: sorted_desc_def sort_key_rev_ascending)
qed

lemma back_over_blank_run:
  "b \<le> s \<Longrightarrow> s \<le> length ls \<Longrightarrow>
   \<forall>i. s - b \<le> i \<and> i < s \<longrightarrow> strip (ls ! i) = [] \<Longrightarrow>
   (b < s \<longrightarrow> strip (ls ! (s - b - 1)) \<noteq> []) \<Longrightarrow>
   back_over_blank ls s = s - b"
proof (induction b arbitrary: s)
  case 0
  then show ?case by (cases s) simp_all
next
  case (Suc b)
  from Suc.prems(1) obtain n where s: "s = Suc n" by (cases s) simp_all
  from Suc.prems s have n: "n < length ls" "strip (ls ! n) = []" by simp_all
  have "back_over_blank ls n = n - b"
  proof (rule Suc.IH)
    show "b \<le> n" "n \<le> length ls" using Suc.prems s by simp_all
    show "\<forall>i. n - b \<le> i \<and> i < n \<longrightarrow> strip (ls ! i) = []"
      using Suc.prems(3) s by simp
    show "b < n \<longrightarrow> strip (ls ! (n - b - 1)) \<noteq> []"
      using Suc.prems(4) s by simp
  qed
  with n s show ?case by simp
qed

lemma doc_forward_second_scan: "find_dispatchers doc_forward_second = Inr [rec_B 5 7]"
  by code_simp

lemma remove_dispatchers_eq_forward_pass:
  assumes "find_dispatchers content = Inr ds"
  shows "remove_dispatchers content ds = Inr (join_nl (forward_pass (split_nl content) ds))"
proof -
  note v = find_dispatchers_valid [OF assms]
  show ?thesis
    by (simp add: valid_spans_sorted_desc [OF v] remove_dispatchers_def
        remove_all_forward_pass [OF v])
qed

lemma back_over_blank_blank:
  "back_over_blank ls s \<le> i \<Longrightarrow> i < s \<Longrightarrow> i < length ls \<and> strip (ls ! i) = []"
proof (induction s)
  case 0
  then show ?case by simp
next
  case (Suc n)
  show ?case
  proof (cases "n < length ls \<and> strip (ls ! n) = []")
    case True
    show ?thesis
    proof (cases "i = n")
      case True
      with \<open>n < length ls \<and> strip (ls ! n) = []\<close> show ?thesis by simp
    next
      case False
      with Suc.prems have "i < n" by simp
      moreover from True Suc.prems have "back_over_blank ls n \<le> i" by simp
      ultimately show ?thesis by (intro Suc.IH)
    qed
  next
    case False
    with Suc.prems show ?thesis by auto
  qed
qed

lemma not_blank_not_deleted:
  assumes "i < length ls" "strip (ls ! i) \<noteq> []"
    and "\<forall>d \<in> set ds. i < start_line d \<or> end_line d < i"
  shows "\<not> in_deleted ls ds i"
proof
  assume "in_deleted ls ds i"
  then obtain d where d: "d \<in> set ds" "deleted_from ls d \<le> i" "i \<le> end_line d"
    by (auto simp: in_deleted_def)
  with assms(3) have lt: "i < start_line d" by force
  from d(2) have "back_over_blank ls (start_line d) \<le> i"
    by (simp add: deleted_from_def Let_def split: if_splits)
  from back_over_blank_blank [OF this lt] assms(2) show False by simp
qed

lemma record_name:
  assumes "find_dispatchers content = Inr ds" "d \<in> set ds"
  shows "\<exists>w. name d = ''parse'' @ w \<and> w \<noteq> [] \<and> (\<forall>c \<in> set w. is_word c) \<and>
             prefix (func_prefix @ name d @ ''('') (split_nl content ! start_line d)"
proof -
  from find_dispatchers_records [OF assms(1)] assms(2)
  have "scan_at (split_nl content) (start_line d) = Inr (Some d)" by simp
  from scan_at_SomeD [OF this] obtain ps rt where
    "func_match (split_nl content ! start_line d) = Some (name d, ps, rt)" by auto
  from func_match_Some [OF this] show ?thesis .
qed

lemma record_cursor_pattern:
  assumes "find_dispatchers content = Inr ds" "d \<in> set ds"
  shows "prefix (func_prefix @ ''parse'') (decl_pattern (cursor_name d))"
proof -
  from find_dispatchers_records [OF assms(1)] assms(2)
  have "scan_at (split_nl content) (start_line d) = Inr (Some d)" by simp
  from scan_at_SomeD [OF this] have c: "cursor_name d = name d @ ''Cursor''" by auto
  from record_name [OF assms] obtain w where "name d = ''parse'' @ w" by auto
  with c show ?thesis by (simp add: decl_pattern_def)
qed

lemma doc_other_receiver_scan: "find_dispatchers doc_other_receiver = Inr [rec_A 0 2]"
  by code_simp

lemma remove_one_run:
  assumes "1 \<le> b" "b \<le> start_line d" "start_line d \<le> end_line d"
    "start_line d \<le> length ls"
    and "\<forall>i. start_line d - b \<le> i \<and> i < start_line d \<longrightarrow> strip (ls ! i) = []"
  shows "(b < start_line d \<and> strip (ls ! (start_line d - b - 1)) \<noteq> [] \<longrightarrow>
            remove_one ls d =
              Inr (take (start_line d - b + 1) ls @ drop (end_line d + 1) ls)) \<and>
         (b = start_line d \<longrightarrow> remove_one ls d = Inr (drop (end_line d + 1) ls))"
proof (intro conjI impI)
  assume a: "b < start_line d \<and> strip (ls ! (start_line d - b - 1)) \<noteq> []"
  with assms have "back_over_blank ls (start_line d) = start_line d - b"
    by (intro back_over_blank_run) simp_all
  with a assms show "remove_one ls d =
      Inr (take (start_line d - b + 1) ls @ drop (end_line d + 1) ls)"
    by (simp add: remove_one_eq deleted_from_def del_slice_def max_def)
next
  assume a: "b = start_line d"
  with assms have "back_over_blank ls (start_line d) = start_line d - b"
    by (intro back_over_blank_run) simp_all
  with a assms show "remove_one ls d = Inr (drop (end_line d + 1) ls)"
    by (simp add: remove_one_eq deleted_from_def del_slice_def max_def)
qed

lemma sorted_wrt_cases:
  "sorted_wrt P xs \<Longrightarrow> x \<in> set xs \<Longrightarrow> y \<in> set xs \<Longrightarrow> x = y \<or> P x y \<or> P y x"
  by (induction xs) auto

lemma deleted_from_run:
  assumes "b \<le> start_line d" "start_line d \<le> length ls"
    and "\<forall>i. start_line d - b \<le> i \<and> i < start_line d \<longrightarrow> strip (ls ! i) = []"
    and "b < start_line d \<longrightarrow> strip (ls ! (start_line d - b - 1)) \<noteq> []"
  shows "deleted_from ls d = (if b < start_line d then start_line d - b + 1 else 0)"
  using back_over_blank_run [OF assms] assms(1)
  by (simp add: deleted_from_def Let_def)

lemma blank_run_kept:
  assumes v: "valid_spans ls ds" and d: "d \<in> set ds"
    and b: "1 \<le> b" "b < start_line d"
    and run: "\<forall>i. start_line d - b \<le> i \<and> i < start_line d \<longrightarrow> strip (ls ! i) = []"
    and nb: "strip (ls ! (start_line d - b - 1)) \<noteq> []"
  shows "\<not> in_deleted ls ds (start_line d - b)"
proof
  assume "in_deleted ls ds (start_line d - b)"
  then obtain x where x: "x \<in> set ds" "deleted_from ls x \<le> start_line d - b"
    "start_line d - b \<le> end_line x"
    by (auto simp: in_deleted_def)
  from v d x(1) have vd: "start_line d < end_line d" "end_line d < length ls"
      "strip (ls ! end_line d) \<noteq> []"
    and vx: "start_line x < end_line x" "end_line x < length ls"
      "strip (ls ! end_line x) \<noteq> []"
    by (simp_all add: valid_spans_def)
  from v have "sorted_wrt (\<lambda>a b. end_line a < start_line b) ds"
    by (simp add: valid_spans_def)
  from sorted_wrt_cases [OF this x(1) d]
  consider "x = d" | "end_line x < start_line d" | "end_line d < start_line x" by blast
  then show False
  proof cases
    case 1
    have "deleted_from ls d = start_line d - b + 1"
      using deleted_from_run [of b d ls] b run nb vd by simp
    with x(2) 1 show False by simp
  next
    case 2
    with x(3) run have "strip (ls ! end_line x) = []" by simp
    with vx(3) show False by simp
  next
    case 3
    from deleted_from_gt [OF 3 vd(2,3)] x(2) vd(1) show False by simp
  qed
qed

lemma doc_blank_run_scan: "find_dispatchers doc_blank_run = Inr [rec_A 4 6]"
  by code_simp

lemma doc_blank_top_scan: "find_dispatchers doc_blank_top = Inr [rec_A 3 5]"
  by code_simp

section \<open>Facts about the rewriter\<close>

lemma sub_decl_id: "\<not> sublist (decl_pattern cn) s \<Longrightarrow> sub_decl cn b s = s"
proof (induction cn b s rule: sub_decl.induct)
  case (1 cn b)
  show ?case by simp
next
  case (2 cn b c cs)
  from "2.prems" have np: "\<not> prefix (decl_pattern cn) (c # cs)"
    and ns: "\<not> sublist (decl_pattern cn) cs"
    by (simp_all add: sublist_Cons_right)
  from np "2.IH"(2) [OF _ ns] show ?case by simp
qed

lemma rename_line_id:
  "\<forall>cn \<in> set names. \<not> sublist (decl_pattern cn) l \<Longrightarrow> rename_line names l = l"
  unfolding rename_line_def by (induction names) (simp_all add: sub_decl_id)






text \<open>
  The relation needs the word boundary: where no declaration text of a name starts at a
  boundary, a pass changes nothing.
\<close>

lemma decl_pass_no_occurrence:
  "decl_pass names b s t \<Longrightarrow>
   \<forall>cn \<in> set names. \<not> occurs_at_boundary (decl_pattern cn) b s \<Longrightarrow> t = s"
proof (induction rule: decl_pass.induct)
  case (stop b)
  show ?case by simp
next
  case (keep c s t b)
  then show ?case by simp
next
  case (decl cn s t)
  have "decl_pattern cn \<noteq> []" by (simp add: decl_pattern_def)
  then obtain c cs where "decl_pattern cn @ s = c # cs"
    by (cases "decl_pattern cn") simp_all
  moreover have "prefix (decl_pattern cn) (decl_pattern cn @ s)" by simp
  ultimately have "occurs_at_boundary (decl_pattern cn) True (decl_pattern cn @ s)"
    by simp
  with decl.hyps(1) decl.prems show ?case by blast
qed

lemma decl_rewrite_no_occurrence:
  "decl_rewrite names s t \<Longrightarrow>
   \<forall>cn \<in> set names. \<not> occurs_at_boundary (decl_pattern cn) True s \<Longrightarrow> t = s"
  by (induction rule: decl_rewrite.induct) (auto dest: decl_pass_no_occurrence)

lemma decl_rewrite_needs_boundary:
  "\<not> decl_rewrite [''parseACursor''] ''xfunc (p *Parser) parseACursor(a)''
   ''xfunc (p *Parser) parseA(a)''"
proof
  assume a: "decl_rewrite [''parseACursor''] ''xfunc (p *Parser) parseACursor(a)''
   ''xfunc (p *Parser) parseA(a)''"
  have "\<forall>cn \<in> set [''parseACursor''].
      \<not> occurs_at_boundary (decl_pattern cn) True ''xfunc (p *Parser) parseACursor(a)''"
    by code_simp
  from decl_rewrite_no_occurrence [OF a this] show False by simp
qed









section \<open>Facts about the second scan\<close>

























































lemma header_above_rescan:
  "process_file doc_header_above =
     Inr (join_nl [''func (p *Parser) parseX() Node {'', '''',
            CHR 0x09 # ''return p.parseXCursor()'', ''}'']) \<and>
   find_dispatchers (join_nl [''func (p *Parser) parseX() Node {'', '''',
            CHR 0x09 # ''return p.parseXCursor()'', ''}'']) =
     Inr [\<lparr>name = ''parseX'', cursor_name = ''parseXCursor'', start_line = 0, end_line = 3,
            params = '''', return_type = ''Node''\<rparr>]"
  by code_simp

lemma slip_rescan:
  "process_file doc_slip_rescan =
     Inr (join_nl [''// parseA parses an A.'', parseA_header, parseA_forward, ''}'']) \<and>
   find_dispatchers (join_nl [''// parseA parses an A.'', parseA_header, parseA_forward, ''}'']) =
     Inr [rec_A 1 3]"
  by code_simp

lemma span_from_le: "span_from ls d \<le> start_line d"
  using back_over_blank_le [of ls "start_line d"] by (simp add: span_from_def Let_def)

lemma slip_free_span_from:
  assumes "slip_free ls ds" "d \<in> set ds" "start_line d \<le> length ls"
  shows "deleted_from ls d = span_from ls d"
proof (cases "start_line d")
  case 0
  then show ?thesis by (simp add: deleted_from_def span_from_def)
next
  case (Suc n)
  with assms have "n < length ls" "strip (ls ! n) = []"
    by (auto simp: slip_free_def list_all_iff)
  with Suc back_over_blank_le [of ls n] show ?thesis
    by (simp add: deleted_from_def span_from_def Let_def)
qed

lemma remove_dispatchers_eq_copy:
  assumes "find_dispatchers content = Inr ds" "slip_free (split_nl content) ds"
  shows "remove_dispatchers content ds =
         Inr (join_nl (copy_outside_spans (split_nl content) ds))"
proof -
  let ?ls = "split_nl content"
  from find_dispatchers_valid [OF assms(1)]
  have "\<forall>d \<in> set ds. start_line d \<le> length ?ls"
    by (auto simp: valid_spans_def)
  with assms(2) have "\<forall>d \<in> set ds. deleted_from ?ls d = span_from ?ls d"
    by (auto intro: slip_free_span_from)
  then have "in_deleted ?ls ds = in_span ?ls ds"
    by (auto simp: in_deleted_def in_span_def fun_eq_iff)
  then have "forward_pass ?ls ds = copy_outside_spans ?ls ds"
    by (simp add: forward_pass_def copy_outside_spans_def)
  with remove_dispatchers_eq_forward_pass [OF assms(1)] show ?thesis by simp
qed

section \<open>The claims about the scanner\<close>

text \<open>
  Claim C9. \<^verbatim>\<open>find_dispatchers\<close> returns a list of records for every text, also for
  text that is no Go source: no read of a line is out of range (such a read is the
  error \<open>IndexError\<close> of the model, which never comes out), and the three loops
  terminate.
\<close>

theorem find_dispatchers_total: "\<exists>ds. find_dispatchers content = Inr ds"
  unfolding find_dispatchers_def by (rule find_loop_total)

theorem find_dispatchers_total_witness:
  "\<exists>ds. find_dispatchers (join_nl [parseA_header, '''', ''}}'', parseB_header]) = Inr ds"
  by (rule find_dispatchers_total)

text \<open>
  Claim C7. The records come in strictly ascending order of \<^verbatim>\<open>start_line\<close>, every
  record starts before it ends, and every record ends before the next one starts, so no
  two ranges overlap.
\<close>

theorem find_dispatchers_ordered:
  assumes "find_dispatchers content = Inr ds"
  shows "sorted_wrt (\<lambda>a b. start_line a < start_line b) ds \<and>
         (\<forall>d \<in> set ds. start_line d < end_line d) \<and>
         sorted_wrt (\<lambda>a b. end_line a < start_line b) ds"
proof -
  from find_dispatchers_records [OF assms]
  have sc: "\<forall>d \<in> set ds. scan_at (split_nl content) (start_line d) = Inr (Some d)"
    and so: "sorted_wrt (\<lambda>a b. end_line a < start_line b) ds"
    by simp_all
  have lt: "\<forall>d \<in> set ds. start_line d < end_line d"
  proof
    fix d assume "d \<in> set ds"
    with sc have "scan_at (split_nl content) (start_line d) = Inr (Some d)" ..
    from scan_at_Some [OF this] show "start_line d < end_line d" by simp
  qed
  have "sorted_wrt (\<lambda>a b. start_line a < start_line b) ds"
  proof (rule sorted_wrt_mono_rel [OF _ so])
    fix a b assume "a \<in> set ds" "end_line a < start_line b"
    with lt show "start_line a < start_line b" by force
  qed
  with lt so show ?thesis by simp
qed

theorem find_dispatchers_ordered_witness:
  "start_line (rec_A 2 4) < start_line (rec_B 7 10) \<and>
   start_line (rec_A 2 4) < end_line (rec_A 2 4) \<and>
   start_line (rec_B 7 10) < end_line (rec_B 7 10) \<and>
   end_line (rec_A 2 4) < start_line (rec_B 7 10)"
  using find_dispatchers_ordered [OF doc_two_scan] by simp

text \<open>
  Claim C8. In every record \<^verbatim>\<open>cursor_name\<close> is \<^verbatim>\<open>name\<close> followed by \<^verbatim>\<open>Cursor\<close>, and
  it is the identifier the forwarding statement calls: the first line after the header
  that is not blank matches the forwarding pattern with exactly this identifier. A
  header whose forwarding statement calls another identifier is therefore in no record.
\<close>

theorem find_dispatchers_suffix:
  assumes "find_dispatchers content = Inr ds" and "d \<in> set ds"
  shows "cursor_name d = name d @ ''Cursor'' \<and>
         (\<exists>j. start_line d < j \<and> j < end_line d \<and>
              (\<forall>m. start_line d < m \<and> m < j \<longrightarrow> strip (split_nl content ! m) = []) \<and>
              return_match (split_nl content ! j) = Some (cursor_name d))"
proof -
  from find_dispatchers_records [OF assms(1)] assms(2)
  have "scan_at (split_nl content) (start_line d) = Inr (Some d)" by simp
  from scan_at_SomeD [OF this] show ?thesis by auto
qed

theorem find_dispatchers_suffix_witness:
  "cursor_name (rec_B 7 10) = name (rec_B 7 10) @ ''Cursor'' \<and>
   (\<exists>j. start_line (rec_B 7 10) < j \<and> j < end_line (rec_B 7 10) \<and>
        (\<forall>m. start_line (rec_B 7 10) < m \<and> m < j \<longrightarrow> strip (split_nl doc_two ! m) = []) \<and>
        return_match (split_nl doc_two ! j) = Some (cursor_name (rec_B 7 10)))"
  by (rule find_dispatchers_suffix [OF doc_two_scan]) simp

text \<open>
  Claim C3, as amended. A header is recorded only if the first line after it that is
  not blank is the forward to its own name followed by \<^verbatim>\<open>Cursor\<close>. So a function whose
  first statement is something else is in no record, also when a later statement
  matches the forwarding pattern. Nothing is said of a function whose first statement
  is the forward.
\<close>

theorem first_statement_decides:
  assumes "find_dispatchers content = Inr ds"
    and "func_match (split_nl content ! i) = Some (n, ps, rt)"
    and "i < j"
    and "\<forall>m. i < m \<and> m < j \<longrightarrow> strip (split_nl content ! m) = []"
    and "strip (split_nl content ! j) \<noteq> []"
    and "return_match (split_nl content ! j) \<noteq> Some (n @ ''Cursor'')"
  shows "\<forall>d \<in> set ds. start_line d \<noteq> i"
proof
  fix d assume d: "d \<in> set ds"
  show "start_line d \<noteq> i"
  proof
    assume i: "start_line d = i"
    from find_dispatchers_records [OF assms(1)] d
    have "scan_at (split_nl content) (start_line d) = Inr (Some d)" by simp
    from scan_at_SomeD [OF this] i obtain ps' rt' j' where
      f: "func_match (split_nl content ! i) = Some (name d, ps', rt')"
      and j': "i < j'" "\<forall>m. i < m \<and> m < j' \<longrightarrow> strip (split_nl content ! m) = []"
      and r: "return_match (split_nl content ! j') = Some (name d @ ''Cursor'')"
      by auto
    from f assms(2) have n: "name d = n" by simp
    from return_match_not_blank [OF r] have nb: "strip (split_nl content ! j') \<noteq> []" .
    have "j' = j"
    proof (rule ccontr)
      assume "j' \<noteq> j"
      then consider "j' < j" | "j < j'" by linarith
      then show False
      proof cases
        case 1
        with j'(1) assms(4) nb show False by simp
      next
        case 2
        with assms(3,5) j'(2) show False by simp
      qed
    qed
    with r n assms(6) show False by simp
  qed
qed

theorem first_statement_decides_witness: "start_line (rec_B 5 7) \<noteq> 0"
proof -
  have a: "func_match (split_nl doc_forward_second ! 0) = Some (''parseA'', '''', '' Node '')"
    by code_simp
  have b: "(0::nat) < 2" by simp
  have s1: "strip (split_nl doc_forward_second ! 1) = []" by code_simp
  have c: "\<forall>m. 0 < m \<and> m < 2 \<longrightarrow> strip (split_nl doc_forward_second ! m) = []"
    using s1 by (auto simp: less_Suc_eq numeral_eq_Suc)
  have d: "strip (split_nl doc_forward_second ! 2) \<noteq> []" by code_simp
  have e: "return_match (split_nl doc_forward_second ! 2) \<noteq> Some (''parseA'' @ ''Cursor'')"
    by code_simp
  from first_statement_decides [OF doc_forward_second_scan a b c d e]
  show ?thesis by simp
qed

text \<open>
  The counterexample to C3 as it was stated: the body has two statements, the first is
  the forward, and the function is recorded.
\<close>

theorem forward_then_more_recorded:
  "find_dispatchers doc_forward_then_more = Inr [rec_A 0 3]"
  by code_simp

section \<open>The claims about the eliminator\<close>

text \<open>
  Claim C6, on the input that breaks it. Two dispatchers, each below its comment: the
  lines after the headers are deleted from the bottom up, and no deletion moves a line
  that a record still to be processed refers to; but the result is not the forward pass
  over the spans, because line 78 keeps both header lines, which lie inside the spans.
\<close>

theorem header_lines_inside_spans_kept:
  "find_dispatchers doc_two_comments = Inr [rec_A 1 3, rec_B 6 8] \<and>
   remove_dispatchers doc_two_comments [rec_A 1 3, rec_B 6 8] =
     Inr (join_nl [''// parseA parses an A.'', parseA_header, '''',
            ''// parseB parses a B.'', parseB_header]) \<and>
   copy_outside_spans (split_nl doc_two_comments) [rec_A 1 3, rec_B 6 8] =
     [''// parseA parses an A.'', '''', ''// parseB parses a B.'']"
  by code_simp

text \<open>
  Claim C1, on the input that breaks it. The line before the dispatcher is a comment,
  so the loop of lines 75-76 does not move \<^verbatim>\<open>start\<close>; line 78 adds one all the same,
  and the deletion starts at the line after the header: the header line stays in the
  output.
\<close>

theorem header_line_kept:
  "find_dispatchers doc_comment_before = Inr [rec_A 1 3] \<and>
   remove_dispatchers doc_comment_before [rec_A 1 3] =
     Inr (join_nl [''// parseA parses an A.'', parseA_header])"
  by code_simp

text \<open>
  Claim C2, as amended, for a record of the scanner that starts after a run of \<open>b\<close>
  blank lines, \<open>b\<close> at least one. If a line that is not blank stands before the run,
  the deletion for this record (lines 70-81, on the original lines) leaves the first
  blank line of the run and takes the other blank lines and the range of the record; in
  the output of \<^verbatim>\<open>remove_dispatchers\<close> the first blank line of the run is kept and every
  line after it up to \<^verbatim>\<open>end_line\<close> is gone. If the run starts the document, the whole
  run goes with the range (the guard of line 77), and no blank line stays.
\<close>

theorem blank_run_collapsed:
  assumes "find_dispatchers content = Inr ds" "d \<in> set ds"
    and "1 \<le> b" "b \<le> start_line d"
    and "\<forall>i. start_line d - b \<le> i \<and> i < start_line d \<longrightarrow> strip (split_nl content ! i) = []"
  shows "(b < start_line d \<and> strip (split_nl content ! (start_line d - b - 1)) \<noteq> [] \<longrightarrow>
            remove_one (split_nl content) d =
              Inr (take (start_line d - b + 1) (split_nl content) @
                   drop (end_line d + 1) (split_nl content)) \<and>
            \<not> in_deleted (split_nl content) ds (start_line d - b) \<and>
            (\<forall>i. start_line d - b < i \<and> i \<le> end_line d \<longrightarrow>
                 in_deleted (split_nl content) ds i)) \<and>
         (b = start_line d \<longrightarrow>
            remove_one (split_nl content) d = Inr (drop (end_line d + 1) (split_nl content)) \<and>
            (\<forall>i. i \<le> end_line d \<longrightarrow> in_deleted (split_nl content) ds i)) \<and>
         remove_dispatchers content ds = Inr (join_nl (forward_pass (split_nl content) ds))"
proof -
  let ?ls = "split_nl content"
  note v = find_dispatchers_valid [OF assms(1)]
  from v assms(2) have vd: "start_line d < end_line d" "end_line d < length ?ls"
    by (simp_all add: valid_spans_def)
  then have le: "start_line d \<le> end_line d" "start_line d \<le> length ?ls" by simp_all
  note one = remove_one_run [OF assms(3,4) le assms(5)]
  have 1: "b < start_line d \<and> strip (?ls ! (start_line d - b - 1)) \<noteq> [] \<longrightarrow>
      \<not> in_deleted ?ls ds (start_line d - b) \<and>
      (\<forall>i. start_line d - b < i \<and> i \<le> end_line d \<longrightarrow> in_deleted ?ls ds i)"
  proof (intro impI conjI allI)
    assume a: "b < start_line d \<and> strip (?ls ! (start_line d - b - 1)) \<noteq> []"
    then show "\<not> in_deleted ?ls ds (start_line d - b)"
      using blank_run_kept [OF v assms(2,3) _ assms(5)] by simp
    fix i assume i: "start_line d - b < i \<and> i \<le> end_line d"
    have "deleted_from ?ls d = start_line d - b + 1"
      using deleted_from_run [of b d ?ls] a assms(4,5) le by simp
    with i have "deleted_from ?ls d \<le> i \<and> i \<le> end_line d" by simp
    with assms(2) show "in_deleted ?ls ds i"
      unfolding in_deleted_def by blast
  qed
  have 2: "b = start_line d \<longrightarrow> (\<forall>i. i \<le> end_line d \<longrightarrow> in_deleted ?ls ds i)"
  proof (intro impI allI)
    fix i assume a: "b = start_line d" and i: "i \<le> end_line d"
    have "deleted_from ?ls d = 0"
      using deleted_from_run [of b d ?ls] a assms(5) le by simp
    with i have "deleted_from ?ls d \<le> i \<and> i \<le> end_line d" by simp
    with assms(2) show "in_deleted ?ls ds i"
      unfolding in_deleted_def by blast
  qed
  from one 1 2 remove_dispatchers_eq_forward_pass [OF assms(1)] show ?thesis by blast
qed

theorem blank_run_collapsed_witness:
  "remove_one (split_nl doc_blank_run) (rec_A 4 6) = Inr [''import x'', '''', ''var x int''] \<and>
   \<not> in_deleted (split_nl doc_blank_run) [rec_A 4 6] 1 \<and>
   in_deleted (split_nl doc_blank_run) [rec_A 4 6] 2 \<and>
   remove_dispatchers doc_blank_run [rec_A 4 6] = Inr (join_nl [''import x'', '''', ''var x int'']) \<and>
   remove_one (split_nl doc_blank_top) (rec_A 3 5) = Inr [''var x int''] \<and>
   in_deleted (split_nl doc_blank_top) [rec_A 3 5] 0"
proof -
  have l1: "split_nl doc_blank_run = lines_blank_run" by code_simp
  have l2: "split_nl doc_blank_top = tl lines_blank_run" by code_simp
  have s: "strip '''' = []" by (simp add: strip_def)
  have b1: "\<forall>i. start_line (rec_A 4 6) - 3 \<le> i \<and> i < start_line (rec_A 4 6) \<longrightarrow>
              strip (split_nl doc_blank_run ! i) = []"
    unfolding l1
    by (auto simp: rec_A_def lines_blank_run_def s nth_Cons' less_Suc_eq numeral_eq_Suc)
  have n1: "strip (split_nl doc_blank_run ! (start_line (rec_A 4 6) - 3 - 1)) \<noteq> []"
    by code_simp
  have b2: "\<forall>i. start_line (rec_A 3 5) - 3 \<le> i \<and> i < start_line (rec_A 3 5) \<longrightarrow>
              strip (split_nl doc_blank_top ! i) = []"
    unfolding l2
    by (auto simp: rec_A_def lines_blank_run_def s nth_Cons' less_Suc_eq numeral_eq_Suc)
  have f: "forward_pass (split_nl doc_blank_run) [rec_A 4 6] = [''import x'', '''', ''var x int'']"
    by code_simp
  note t1 = blank_run_collapsed [OF doc_blank_run_scan _ _ _ b1]
  note t2 = blank_run_collapsed [OF doc_blank_top_scan _ _ _ b2]
  have "remove_one (split_nl doc_blank_run) (rec_A 4 6) =
        Inr (take (start_line (rec_A 4 6) - 3 + 1) (split_nl doc_blank_run) @
             drop (end_line (rec_A 4 6) + 1) (split_nl doc_blank_run))"
    and "\<not> in_deleted (split_nl doc_blank_run) [rec_A 4 6] (start_line (rec_A 4 6) - 3)"
    and "in_deleted (split_nl doc_blank_run) [rec_A 4 6] 2"
    and "remove_dispatchers doc_blank_run [rec_A 4 6] =
        Inr (join_nl (forward_pass (split_nl doc_blank_run) [rec_A 4 6]))"
    using t1 n1 by (simp_all add: rec_A_def)
  moreover have "remove_one (split_nl doc_blank_top) (rec_A 3 5) =
      Inr (drop (end_line (rec_A 3 5) + 1) (split_nl doc_blank_top))"
    and "in_deleted (split_nl doc_blank_top) [rec_A 3 5] 0"
    using t2 by (simp_all add: rec_A_def)
  ultimately show ?thesis
    unfolding f by (simp add: l1 l2 rec_A_def lines_blank_run_def)
qed

text \<open>
  The counterexample to C2 as it was stated: three blank lines start the document, and
  none of them is left before \<^verbatim>\<open>var x int\<close>.
\<close>

theorem blank_run_at_top_deleted:
  "find_dispatchers doc_blank_top = Inr [rec_A 3 5] \<and>
   remove_dispatchers doc_blank_top [rec_A 3 5] = Inr ''var x int''"
  by code_simp

section \<open>The claims about the pipeline\<close>




section \<open>The claims about the rewriter\<close>




section \<open>The claim about the name prefix and the receiver\<close>

text \<open>
  Claim C10, as amended. Every record of the scanner names a function \<^verbatim>\<open>parse...\<close> of
  word characters whose header line starts with \<^verbatim>\<open>func (p *Parser)\<close>, so a line that
  does not start with \<^verbatim>\<open>func (p *Parser) parse\<close> starts no record. The eliminator
  deletes a line that is not blank only inside the range of a record, from its header to
  its closing brace. The rewriter, for the names of the records in any order, leaves
  every line untouched that does not hold the text \<^verbatim>\<open>func (p *Parser) parse\<close>.
\<close>

theorem only_parse_methods:
  assumes "find_dispatchers content = Inr ds"
  shows "(\<forall>d \<in> set ds. \<exists>w. name d = ''parse'' @ w \<and> w \<noteq> [] \<and> (\<forall>c \<in> set w. is_word c) \<and>
            prefix (func_prefix @ name d @ ''('') (split_nl content ! start_line d)) \<and>
         (\<forall>i. \<not> prefix (func_prefix @ ''parse'') (split_nl content ! i) \<longrightarrow>
              (\<forall>d \<in> set ds. start_line d \<noteq> i)) \<and>
         remove_dispatchers content ds =
           Inr (join_nl (forward_pass (split_nl content) ds)) \<and>
         (\<forall>i. i < length (split_nl content) \<and> strip (split_nl content ! i) \<noteq> [] \<and>
              (\<forall>d \<in> set ds. i < start_line d \<or> end_line d < i) \<longrightarrow>
              \<not> in_deleted (split_nl content) ds i) \<and>
         (\<forall>names l. set names \<subseteq> cursor_name ` set ds \<and>
              \<not> sublist (func_prefix @ ''parse'') l \<longrightarrow> rename_line names l = l)"
proof (intro conjI allI impI ballI)
  fix d assume "d \<in> set ds"
  then show "\<exists>w. name d = ''parse'' @ w \<and> w \<noteq> [] \<and> (\<forall>c \<in> set w. is_word c) \<and>
            prefix (func_prefix @ name d @ ''('') (split_nl content ! start_line d)"
    by (rule record_name [OF assms])
next
  fix i d
  assume n: "\<not> prefix (func_prefix @ ''parse'') (split_nl content ! i)" and d: "d \<in> set ds"
  from record_name [OF assms d] obtain w where
    "name d = ''parse'' @ w"
    "prefix (func_prefix @ name d @ ''('') (split_nl content ! start_line d)"
    by auto
  then have "prefix (func_prefix @ ''parse'') (split_nl content ! start_line d)"
    by (auto simp: prefix_def)
  with n show "start_line d \<noteq> i" by auto
next
  show "remove_dispatchers content ds = Inr (join_nl (forward_pass (split_nl content) ds))"
    by (rule remove_dispatchers_eq_forward_pass [OF assms])
next
  fix i
  assume "i < length (split_nl content) \<and> strip (split_nl content ! i) \<noteq> [] \<and>
              (\<forall>d \<in> set ds. i < start_line d \<or> end_line d < i)"
  then show "\<not> in_deleted (split_nl content) ds i"
    by (intro not_blank_not_deleted) simp_all
next
  fix names l
  assume a: "set names \<subseteq> cursor_name ` set ds \<and> \<not> sublist (func_prefix @ ''parse'') l"
  show "rename_line names l = l"
  proof (rule rename_line_id, rule ballI)
    fix cn assume "cn \<in> set names"
    with a obtain d where d: "d \<in> set ds" "cn = cursor_name d" by auto
    from record_cursor_pattern [OF assms d(1)] d(2)
    have "prefix (func_prefix @ ''parse'') (decl_pattern cn)" by simp
    then have "sublist (func_prefix @ ''parse'') (decl_pattern cn)"
      by (rule prefix_imp_sublist)
    with a show "\<not> sublist (decl_pattern cn) l"
      by (metis sublist_order.order.trans)
  qed
qed

theorem only_parse_methods_witness:
  "(\<exists>w. name (rec_A 0 2) = ''parse'' @ w \<and> w \<noteq> []) \<and>
   start_line (rec_A 0 2) \<noteq> 3 \<and>
   remove_dispatchers doc_other_receiver [rec_A 0 2] =
     Inr (join_nl (forward_pass (split_nl doc_other_receiver) [rec_A 0 2])) \<and>
   \<not> in_deleted (split_nl doc_other_receiver) [rec_A 0 2] 3 \<and>
   rename_line [''parseACursor''] ''func (l *Lexer) scanBCursor() Tok {'' =
     ''func (l *Lexer) scanBCursor() Tok {''"
proof -
  note t = only_parse_methods [OF doc_other_receiver_scan]
  have 1: "\<exists>w. name (rec_A 0 2) = ''parse'' @ w \<and> w \<noteq> []"
    using t by auto
  have "\<not> prefix (func_prefix @ ''parse'') (split_nl doc_other_receiver ! 3)"
    by code_simp
  with t have 2: "start_line (rec_A 0 2) \<noteq> 3" by simp
  have "3 < length (split_nl doc_other_receiver) \<and>
      strip (split_nl doc_other_receiver ! 3) \<noteq> []"
    by code_simp
  moreover have "\<forall>d \<in> set [rec_A 0 2]. 3 < start_line d \<or> end_line d < 3"
    by (simp add: rec_A_def)
  ultimately have 3: "\<not> in_deleted (split_nl doc_other_receiver) [rec_A 0 2] 3"
    using t by blast
  have "set [''parseACursor''] \<subseteq> cursor_name ` set [rec_A 0 2]"
    by (simp add: rec_A_def)
  moreover have "\<not> sublist (func_prefix @ ''parse'') ''func (l *Lexer) scanBCursor() Tok {''"
    by code_simp
  ultimately have 4: "rename_line [''parseACursor''] ''func (l *Lexer) scanBCursor() Tok {'' =
     ''func (l *Lexer) scanBCursor() Tok {''"
    using t by blast
  from 1 2 3 4 t show ?thesis by simp
qed

text \<open>
  The counterexample to C10 as it was stated: the dispatcher \<^verbatim>\<open>scanB\<close> of the lexer has
  another receiver and another name prefix, and it is deleted, because the range of
  \<^verbatim>\<open>parseA\<close> runs to the first line that is a closing brace alone.
\<close>

theorem other_receiver_deleted_inside_span:
  "find_dispatchers doc_swallowed = Inr [rec_A 0 4] \<and>
   remove_dispatchers doc_swallowed [rec_A 0 4] = Inr ''var x int''"
  by code_simp

end
